theory Spec2Isabelle
  imports Main "HOL-Library.Word"
begin

section \<open>Python strings\<close>

text \<open>
  A Python \<^verbatim>\<open>str\<close> is a sequence of Unicode code points and \<^verbatim>\<open>len\<close> counts
  code points, so a string is a list of code points, each a natural number. String
  literals of the source are written with \<open>py\<close>, which maps an ASCII literal to its
  code points.
\<close>

type_synonym codepoint = nat
type_synonym pystr = "codepoint list"

definition py :: "string \<Rightarrow> pystr" where
  "py s = map of_char s"

abbreviation LF :: codepoint where "LF \<equiv> 10"
abbreviation CR :: codepoint where "CR \<equiv> 13"
abbreviation DOT :: codepoint where "DOT \<equiv> 46"

text \<open>
  \<^verbatim>\<open>str.strip()\<close> without argument removes the characters for which
  \<^verbatim>\<open>str.isspace\<close> holds: U+0009..U+000D, U+001C..U+0020, U+0085, U+00A0, U+1680,
  U+2000..U+200A, U+2028, U+2029, U+202F, U+205F and U+3000.
\<close>

definition isspace :: "codepoint \<Rightarrow> bool" where
  "isspace c \<longleftrightarrow>
     (9 \<le> c \<and> c \<le> 13) \<or> (28 \<le> c \<and> c \<le> 32) \<or> c = 133 \<or> c = 160 \<or> c = 5760 \<or>
     (8192 \<le> c \<and> c \<le> 8202) \<or> c = 8232 \<or> c = 8233 \<or> c = 8239 \<or> c = 8287 \<or>
     c = 12288"

definition strip :: "pystr \<Rightarrow> pystr" where
  "strip s = rev (dropWhile isspace (rev (dropWhile isspace s)))"

text \<open>
  \<^verbatim>\<open>text.replace("\r\n", "\n")\<close>: one pass from the left, every non-overlapping
  occurrence of the pair is replaced, and the scan goes on after the occurrence.
\<close>

fun replace_crlf :: "pystr \<Rightarrow> pystr" where
  "replace_crlf [] = []"
| "replace_crlf [x] = [x]"
| "replace_crlf (x # y # xs) =
     (if x = CR \<and> y = LF then LF # replace_crlf xs else x # replace_crlf (y # xs))"

text \<open>
  \<^verbatim>\<open>s[lo:hi]\<close> for integers \<open>lo\<close> and \<open>hi\<close>: a negative bound counts from the end,
  and both bounds are clamped to the string.
\<close>

definition py_index :: "int \<Rightarrow> int \<Rightarrow> int" where
  "py_index n k = (if k < 0 then max (k + n) 0 else min k n)"

definition py_slice :: "'a list \<Rightarrow> int \<Rightarrow> int \<Rightarrow> 'a list" where
  "py_slice s lo hi =
     (let n = int (length s); l = py_index n lo; h = py_index n hi
      in take (nat (h - l)) (drop (nat l) s))"

text \<open>
  \<^verbatim>\<open>s.rfind(c)\<close> for a needle of one character: the highest index at which \<open>c\<close>
  stands in \<open>s\<close>, and \<open>-1\<close> when it stands nowhere.
\<close>

fun rfind :: "pystr \<Rightarrow> codepoint \<Rightarrow> int" where
  "rfind [] c = - 1"
| "rfind (x # xs) c =
     (let r = rfind xs c in if 0 \<le> r then r + 1 else if x = c then 0 else - 1)"

text \<open>\<^verbatim>\<open>sep.join(xs)\<close> and \<^verbatim>\<open>str(i)\<close> for an integer.\<close>

fun join :: "pystr \<Rightarrow> pystr list \<Rightarrow> pystr" where
  "join sep [] = []"
| "join sep [x] = x"
| "join sep (x # y # xs) = x @ sep @ join sep (y # xs)"

fun digits :: "nat \<Rightarrow> pystr" where
  "digits n = (if n < 10 then [48 + n] else digits (n div 10) @ [48 + n mod 10])"

declare digits.simps [simp del]

definition str_int :: "int \<Rightarrow> pystr" where
  "str_int i = (if i < 0 then 45 # digits (nat (- i)) else digits (nat i))"

section \<open>The chunker (summarizer.py)\<close>

text \<open>
  The text after \<^verbatim>\<open>text = text.replace("\r\n", "\n").strip()\<close>.
\<close>

definition normalized :: "pystr \<Rightarrow> pystr" where
  "normalized text = strip (replace_crlf text)"

text \<open>
  One iteration of the \<^verbatim>\<open>while i < n\<close> loop of \<^verbatim>\<open>chunk_text\<close>, with the names of its
  local variables: the proposed end \<^verbatim>\<open>min(i + max_chars, n)\<close>, the window
  \<^verbatim>\<open>candidate = text[i:end]\<close>, \<^verbatim>\<open>split_pos\<close>, and the end after the test
  \<^verbatim>\<open>split_pos > max_chars // 2\<close>. Python's \<^verbatim>\<open>//\<close> rounds down, as \<open>div\<close> on \<open>int\<close>
  does.
\<close>

definition window_end :: "pystr \<Rightarrow> int \<Rightarrow> int \<Rightarrow> int" where
  "window_end text max_chars i = min (i + max_chars) (int (length text))"

definition candidate :: "pystr \<Rightarrow> int \<Rightarrow> int \<Rightarrow> pystr" where
  "candidate text max_chars i = py_slice text i (window_end text max_chars i)"

definition split_pos :: "pystr \<Rightarrow> int \<Rightarrow> int \<Rightarrow> int" where
  "split_pos text max_chars i =
     max (rfind (candidate text max_chars i) LF) (rfind (candidate text max_chars i) DOT)"

definition chunk_end :: "pystr \<Rightarrow> int \<Rightarrow> int \<Rightarrow> int" where
  "chunk_end text max_chars i =
     (if split_pos text max_chars i > max_chars div 2
      then i + split_pos text max_chars i + 1
      else window_end text max_chars i)"

text \<open>
  The loop itself. The source gives no bound on its iterations (with \<^verbatim>\<open>max_chars = 0\<close>
  the cursor never moves), so the loop is a partial function: \<open>None\<close> is a loop that does
  not return. \<open>chunks\<close> is the list the source appends to.
\<close>

partial_function (option) chunk_loop :: "pystr \<Rightarrow> int \<Rightarrow> int \<Rightarrow> pystr list \<Rightarrow> pystr list option" where
  "chunk_loop text max_chars i chunks =
     (if i < int (length text)
      then chunk_loop text max_chars (chunk_end text max_chars i)
             (chunks @ [strip (py_slice text i (chunk_end text max_chars i))])
      else Some chunks)"

declare chunk_loop.simps [code]

definition chunk_text :: "pystr \<Rightarrow> int \<Rightarrow> pystr list option" where
  "chunk_text text max_chars =
     (let t = normalized text
      in if int (length t) \<le> max_chars then Some [t] else chunk_loop t max_chars 0 [])"

section \<open>The summarization service (summarizer.py)\<close>

text \<open>
  A value that is a string or \<^verbatim>\<open>None\<close> is a \<open>pystr option\<close>. The text of a response
  of the service is such a value: \<^verbatim>\<open>response.text\<close> is \<^verbatim>\<open>None\<close> when the response holds
  no text (no candidate, a blocked prompt), and the source passes it on unchecked.

  The program's state, as far as the pipeline reads or writes it: the session's
  \<^verbatim>\<open>summary_cache\<close> (fingerprint to final summary), the prompts sent to the remote
  service so far (oldest first, failed calls included), and the files handed to the
  text extractor so far. The progress display, the pause between chunks and the
  temporary file (written before extraction, removed in the \<^verbatim>\<open>finally\<close> block) do
  not influence a result and are left out.
\<close>

type_synonym bytes = "8 word list"

record world =
  summary_cache :: "pystr \<rightharpoonup> pystr option"
  service_log :: "pystr list"
  extract_log :: "bytes list"

text \<open>
  An exception is a value: \<open>RuntimeError\<close> with its message, as the source raises it,
  \<open>AttributeError\<close> with its message, as Python raises it for a method call on
  \<^verbatim>\<open>None\<close>, or an exception of the PDF library with its message. \<open>str_exn\<close> is
  \<^verbatim>\<open>str(e)\<close>.
\<close>

datatype exn = RuntimeError pystr | AttributeError pystr | ExternalError pystr

fun str_exn :: "exn \<Rightarrow> pystr" where
  "str_exn (RuntimeError msg) = msg"
| "str_exn (AttributeError msg) = msg"
| "str_exn (ExternalError msg) = msg"

text \<open>
  \<^verbatim>\<open>s.strip()\<close> for a value that may be \<^verbatim>\<open>None\<close>: Python raises
  \<^verbatim>\<open>AttributeError: 'NoneType' object has no attribute 'strip'\<close>.
\<close>

definition none_has_no_strip :: pystr where
  "none_has_no_strip = [39] @ py ''NoneType'' @ [39] @ py '' object has no attribute '' @
     [39] @ py ''strip'' @ [39]"

definition strip_or_raise :: "pystr option \<Rightarrow> exn + pystr" where
  "strip_or_raise s =
     (case s of None \<Rightarrow> Inl (AttributeError none_has_no_strip) | Some x \<Rightarrow> Inr (strip x))"

text \<open>
  \<^verbatim>\<open>client.models.generate_content\<close> is a remote call. Its answer may depend on the
  prompt and on everything sent before; it is \<open>Inl\<close> of the message of the exception
  it raises, or \<open>Inr\<close> of \<^verbatim>\<open>response.text\<close>, a string or \<^verbatim>\<open>None\<close>. \<^verbatim>\<open>summarize_chunk\<close> and
  \<^verbatim>\<open>aggregate_summaries\<close> wrap an exception of the call in a \<^verbatim>\<open>RuntimeError\<close> and
  return \<^verbatim>\<open>response.text\<close> as it is.
\<close>

type_synonym service = "pystr list \<Rightarrow> pystr \<Rightarrow> pystr + pystr option"

definition chunk_prompt :: "int \<Rightarrow> pystr \<Rightarrow> pystr" where
  "chunk_prompt target_words chunk =
     py ''Summarize the following text in about '' @ str_int target_words @
     py '' words, clearly and concisely.'' @ [LF, LF] @ chunk"

definition summarize_chunk :: "service \<Rightarrow> world \<Rightarrow> pystr \<Rightarrow> int \<Rightarrow> (exn + pystr option) \<times> world" where
  "summarize_chunk client w chunk target_words =
     (let prompt = chunk_prompt target_words chunk;
          w' = w\<lparr>service_log := service_log w @ [prompt]\<rparr>
      in case client (service_log w) prompt of
           Inl e \<Rightarrow> (Inl (RuntimeError (py ''Gemini summarize_chunk error: '' @ e)), w')
         | Inr response_text \<Rightarrow> (Inr response_text, w'))"

definition aggregate_prompt :: "int \<Rightarrow> pystr list \<Rightarrow> pystr" where
  "aggregate_prompt target_words summaries =
     py ''Combine these summaries into one final summary of about '' @ str_int target_words @
     py '' words.'' @ [LF, LF] @ join [LF, LF] summaries"

definition aggregate_summaries :: "service \<Rightarrow> world \<Rightarrow> pystr list \<Rightarrow> int \<Rightarrow> (exn + pystr option) \<times> world" where
  "aggregate_summaries client w summaries target_words =
     (let prompt = aggregate_prompt target_words summaries;
          w' = w\<lparr>service_log := service_log w @ [prompt]\<rparr>
      in case client (service_log w) prompt of
           Inl e \<Rightarrow> (Inl (RuntimeError (py ''Gemini aggregate_summaries error: '' @ e)), w')
         | Inr response_text \<Rightarrow> (Inr response_text, w'))"

text \<open>
  \<^verbatim>\<open>extract_text_from_pdf\<close> opens the file, joins the text of its pages with a blank
  line and trims the result. The PDF library is a function from the file's bytes to
  the page texts, or to the message of the exception it raises.
\<close>

definition extract_text_from_pdf :: "(bytes \<Rightarrow> pystr + pystr list) \<Rightarrow> world \<Rightarrow> bytes \<Rightarrow> (exn + pystr) \<times> world" where
  "extract_text_from_pdf fitz w file_bytes =
     (let w' = w\<lparr>extract_log := extract_log w @ [file_bytes]\<rparr>
      in case fitz file_bytes of
           Inl e \<Rightarrow> (Inl (ExternalError e), w')
         | Inr pages \<Rightarrow> (Inr (strip (join [LF, LF] pages)), w'))"

section \<open>The orchestrator (streamlit app)\<close>

text \<open>
  What \<^verbatim>\<open>summarize_uploaded_pdf\<close> reads besides its argument: the hash function behind
  \<^verbatim>\<open>file_hash_bytes\<close>, the PDF library, the service client, and the three sidebar
  settings \<^verbatim>\<open>max_chars\<close>, \<^verbatim>\<open>per_chunk_words\<close> and \<^verbatim>\<open>target_words\<close> (the fields
  \<open>cfg_max_chars\<close>, \<open>cfg_per_chunk_words\<close> and \<open>cfg_target_words\<close>; the plain names are
  the parameters of the functions above).
\<close>

record app =
  sha256_hexdigest :: "bytes \<Rightarrow> pystr"
  fitz_pages :: "bytes \<Rightarrow> pystr + pystr list"
  generate_content :: service
  cfg_max_chars :: int
  cfg_per_chunk_words :: int
  cfg_target_words :: int

definition file_hash_bytes :: "app \<Rightarrow> bytes \<Rightarrow> pystr" where
  "file_hash_bytes a bts = sha256_hexdigest a bts"

text \<open>
  The loop \<^verbatim>\<open>for i, chunk in enumerate(chunks, start=1)\<close>: \<open>i\<close> counts from 1. The call
  of \<^verbatim>\<open>summarize_chunk\<close> stands in a \<^verbatim>\<open>try\<close> whose handler raises a \<^verbatim>\<open>RuntimeError\<close> with
  the chunk's number in front of the message. \<^verbatim>\<open>summaries.append(s.strip())\<close> stands
  after that \<^verbatim>\<open>try\<close>, so what \<^verbatim>\<open>s.strip()\<close> raises leaves the loop as it is.
\<close>

fun summarize_each :: "app \<Rightarrow> world \<Rightarrow> int \<Rightarrow> pystr list \<Rightarrow> pystr list \<Rightarrow> (exn + pystr list) \<times> world" where
  "summarize_each a w i [] summaries = (Inr summaries, w)"
| "summarize_each a w i (chunk # rest) summaries =
     (case summarize_chunk (generate_content a) w chunk (cfg_per_chunk_words a) of
        (Inl e, w') \<Rightarrow>
          (Inl (RuntimeError (py ''Error while summarizing chunk '' @ str_int i @ py '': '' @ str_exn e)), w')
      | (Inr s, w') \<Rightarrow>
          (case strip_or_raise s of
             Inl e \<Rightarrow> (Inl e, w')
           | Inr stripped \<Rightarrow> summarize_each a w' (i + 1) rest (summaries @ [stripped])))"

text \<open>
  \<open>None\<close> is a run that does not return (a chunking loop that never ends); otherwise
  the result is the exception raised or the value returned, with the state the run
  leaves behind. The value returned is what \<^verbatim>\<open>aggregate_summaries\<close> returned, now or in
  the run that stored it: a string or \<^verbatim>\<open>None\<close>.
\<close>

definition summarize_uploaded_pdf :: "app \<Rightarrow> world \<Rightarrow> bytes \<Rightarrow> ((exn + pystr option) \<times> world) option" where
  "summarize_uploaded_pdf a w file_bytes =
     (let fh = file_hash_bytes a file_bytes
      in case summary_cache w fh of
           Some cached \<Rightarrow> Some (Inr cached, w)
         | None \<Rightarrow>
             (case extract_text_from_pdf (fitz_pages a) w file_bytes of
                (Inl e, w1) \<Rightarrow> Some (Inl e, w1)
              | (Inr text, w1) \<Rightarrow>
                  if text = [] \<or> strip text = []
                  then Some (Inl (RuntimeError
                         (py ''No extractable text found in PDF (probably scanned image).'')), w1)
                  else
                    (case chunk_text text (cfg_max_chars a) of
                       None \<Rightarrow> None
                     | Some chunks \<Rightarrow>
                         (case summarize_each a w1 1 chunks [] of
                            (Inl e, w2) \<Rightarrow> Some (Inl e, w2)
                          | (Inr summaries, w2) \<Rightarrow>
                              (case aggregate_summaries (generate_content a) w2 summaries
                                      (cfg_target_words a) of
                                 (Inl e, w3) \<Rightarrow> Some (Inl e, w3)
                               | (Inr final, w3) \<Rightarrow>
                                   Some (Inr final,
                                     w3\<lparr>summary_cache := (summary_cache w3)(fh \<mapsto> final)\<rparr>))))))"

section \<open>Vocabulary of the statements\<close>

text \<open>
  Two notions the statements below need and the source does not name: whether a
  string holds a carriage return directly before a line feed, and the length of the
  longest run of consecutive whitespace characters of a string.
\<close>

fun has_crlf :: "pystr \<Rightarrow> bool" where
  "has_crlf [] \<longleftrightarrow> False"
| "has_crlf [x] \<longleftrightarrow> False"
| "has_crlf (x # y # xs) \<longleftrightarrow> (x = CR \<and> y = LF) \<or> has_crlf (y # xs)"

fun longest_space_run :: "pystr \<Rightarrow> nat" where
  "longest_space_run [] = 0"
| "longest_space_run (x # xs) =
     max (length (takeWhile isspace (x # xs))) (longest_space_run xs)"

text \<open>
  The text of the specification's Scenario B: 7000 characters, a newline at position
  2900, a period at position 3050, the letter \<^verbatim>\<open>a\<close> everywhere else.
\<close>

definition scenario_B_text :: pystr where
  "scenario_B_text = replicate 2900 97 @ [LF] @ replicate 149 97 @ [DOT] @ replicate 3949 97"

text \<open>
  Concrete collaborators for the instances below: an application whose PDF library
  returns the given pages for every file and whose fingerprint is the list of the
  bytes' values, the state of a fresh session, a service whose second call raises, a
  service whose second response holds no text, and a service that always answers.
\<close>

definition example_app :: "pystr list \<Rightarrow> service \<Rightarrow> int \<Rightarrow> app" where
  "example_app pages client m =
     \<lparr>sha256_hexdigest = map unat, fitz_pages = (\<lambda>bts. Inr pages), generate_content = client,
      cfg_max_chars = m, cfg_per_chunk_words = 150, cfg_target_words = 300\<rparr>"

definition fresh_world :: world where
  "fresh_world = \<lparr>summary_cache = Map.empty, service_log = [], extract_log = []\<rparr>"

definition second_call_fails :: service where
  "second_call_fails log prompt =
     (if length log = 1 then Inl (py ''quota'') else Inr (Some (py '' ok '')))"

definition second_response_without_text :: service where
  "second_response_without_text log prompt =
     (if length log = 1 then Inr None else Inr (Some (py '' ok '')))"

definition always_answers :: service where
  "always_answers log prompt = Inr (Some (py '' ok ''))"

section \<open>Properties of the string operations\<close>

lemma rfind_range: "- 1 \<le> rfind s c \<and> rfind s c < int (length s)"
  by (induction s) (auto simp: Let_def)

lemma rfind_absent: "rfind s c < 0 \<longleftrightarrow> c \<notin> set s"
  by (induction s) (auto simp: Let_def)

lemma rfind_nth: "0 \<le> rfind s c \<Longrightarrow> s ! nat (rfind s c) = c"
proof (induction s)
  case Nil
  then show ?case by simp
next
  case (Cons x xs)
  show ?case
  proof (cases "0 \<le> rfind xs c")
    case True
    then have "nat (rfind xs c + 1) = Suc (nat (rfind xs c))" by simp
    with True Cons.IH show ?thesis by (simp add: Let_def)
  next
    case False
    with Cons.prems show ?thesis by (auto simp: Let_def split: if_splits)
  qed
qed

lemma rfind_is_last: "j < length s \<Longrightarrow> rfind s c < int j \<Longrightarrow> s ! j \<noteq> c"
proof (induction s arbitrary: j)
  case Nil
  then show ?case by simp
next
  case (Cons x xs)
  show ?case
  proof (cases j)
    case 0
    with Cons.prems show ?thesis by (auto simp: Let_def split: if_splits)
  next
    case (Suc k)
    with Cons.prems have "k < length xs" by simp
    moreover from Cons.prems Suc have "rfind xs c < int k"
      using rfind_range [of xs c] by (auto simp: Let_def split: if_splits)
    ultimately have "xs ! k \<noteq> c" by (rule Cons.IH)
    with Suc show ?thesis by simp
  qed
qed

lemma py_slice_inside:
  "0 \<le> lo \<Longrightarrow> lo \<le> hi \<Longrightarrow> hi \<le> int (length s) \<Longrightarrow>
   py_slice s lo hi = take (nat (hi - lo)) (drop (nat lo) s)"
  by (simp add: py_slice_def py_index_def Let_def min_def)

lemma length_py_slice_inside:
  "0 \<le> lo \<Longrightarrow> lo \<le> hi \<Longrightarrow> hi \<le> int (length s) \<Longrightarrow>
   int (length (py_slice s lo hi)) = hi - lo"
  by (simp add: py_slice_inside)

lemma py_slice_append_drop:
  assumes "0 \<le> lo" "lo \<le> hi" "hi \<le> int (length s)"
  shows "py_slice s lo hi @ drop (nat hi) s = drop (nat lo) s"
proof -
  from assms have "nat hi = nat (hi - lo) + nat lo" by simp
  then have "drop (nat hi) s = drop (nat (hi - lo)) (drop (nat lo) s)"
    by (simp only: drop_drop)
  moreover have "take (nat (hi - lo)) (drop (nat lo) s) @ drop (nat (hi - lo)) (drop (nat lo) s)
      = drop (nat lo) s"
    by (rule append_take_drop_id)
  ultimately show ?thesis using assms by (simp only: py_slice_inside)
qed

lemma strip_split:
  "dropWhile isspace s = strip s @ rev (takeWhile isspace (rev (dropWhile isspace s)))"
proof -
  let ?m = "dropWhile isspace s"
  have "strip s @ rev (takeWhile isspace (rev ?m))
      = rev (takeWhile isspace (rev ?m) @ dropWhile isspace (rev ?m))"
    unfolding strip_def by (simp only: rev_append)
  also have "\<dots> = rev (rev ?m)" by (simp only: takeWhile_dropWhile_id)
  also have "\<dots> = ?m" by (simp only: rev_rev_ident)
  finally show ?thesis by (rule sym)
qed

lemma strip_decompose:
  "\<exists>l r. s = l @ strip s @ r \<and> (\<forall>c\<in>set l. isspace c) \<and> (\<forall>c\<in>set r. isspace c)"
proof -
  let ?l = "takeWhile isspace s"
  let ?r = "rev (takeWhile isspace (rev (dropWhile isspace s)))"
  have "s = ?l @ dropWhile isspace s" by simp
  also have "dropWhile isspace s = strip s @ ?r" by (rule strip_split)
  finally have "s = ?l @ strip s @ ?r" .
  moreover have "\<forall>c\<in>set ?l. isspace c" by (auto dest: set_takeWhileD)
  moreover have "\<forall>c\<in>set ?r. isspace c" by (auto dest: set_takeWhileD)
  ultimately show ?thesis by blast
qed

lemma length_strip: "length (strip s) \<le> length s"
proof -
  have "length (dropWhile isspace (rev (dropWhile isspace s))) \<le> length (rev (dropWhile isspace s))"
    by (rule length_dropWhile_le)
  moreover have "length (dropWhile isspace s) \<le> length s"
    by (rule length_dropWhile_le)
  ultimately show ?thesis by (simp add: strip_def)
qed

lemma strip_empty_iff: "strip s = [] \<longleftrightarrow> (\<forall>c\<in>set s. isspace c)"
proof
  assume e: "strip s = []"
  have "dropWhile isspace s = []"
  proof (rule ccontr)
    assume ne: "dropWhile isspace s \<noteq> []"
    then have "\<not> isspace (hd (dropWhile isspace s))" by (rule hd_dropWhile)
    moreover from ne have "hd (dropWhile isspace s) \<in> set (dropWhile isspace s)" by simp
    moreover from e have "\<forall>c\<in>set (dropWhile isspace s). isspace c"
      by (auto simp: strip_def dest: set_dropWhileD)
    ultimately show False by blast
  qed
  then show "\<forall>c\<in>set s. isspace c" by (simp add: dropWhile_eq_Nil_conv)
next
  assume "\<forall>c\<in>set s. isspace c"
  then show "strip s = []" by (auto simp: strip_def dest: set_dropWhileD)
qed

lemma hd_strip: "strip s \<noteq> [] \<Longrightarrow> \<not> isspace (hd (strip s))"
proof -
  assume ne: "strip s \<noteq> []"
  have sp: "dropWhile isspace s = strip s @ rev (takeWhile isspace (rev (dropWhile isspace s)))"
    by (rule strip_split)
  with ne have "dropWhile isspace s \<noteq> []" by (metis append_is_Nil_conv)
  then have "\<not> isspace (hd (dropWhile isspace s))" by (rule hd_dropWhile)
  moreover from sp ne have "hd (dropWhile isspace s) = hd (strip s)" by (metis hd_append2)
  ultimately show ?thesis by simp
qed

lemma last_strip: "strip s \<noteq> [] \<Longrightarrow> \<not> isspace (last (strip s))"
proof -
  let ?d = "dropWhile isspace (rev (dropWhile isspace s))"
  assume "strip s \<noteq> []"
  then have ne: "?d \<noteq> []" by (simp add: strip_def)
  then have "\<not> isspace (hd ?d)" by (rule hd_dropWhile)
  moreover have "last (rev ?d) = hd ?d" by (simp add: last_rev)
  ultimately show ?thesis by (simp add: strip_def)
qed

lemma dropWhile_keeps: "xs \<noteq> [] \<Longrightarrow> \<not> P (hd xs) \<Longrightarrow> dropWhile P xs = xs"
  by (cases xs) simp_all

lemma strip_fixed:
  assumes "s = [] \<or> (\<not> isspace (hd s) \<and> \<not> isspace (last s))"
  shows "strip s = s"
proof (cases "s = []")
  case True
  then show ?thesis by (simp add: strip_def)
next
  case False
  with assms have h: "\<not> isspace (hd s)" and l: "\<not> isspace (last s)" by simp_all
  from False h have d: "dropWhile isspace s = s" by (rule dropWhile_keeps)
  from False have "rev s \<noteq> []" by simp
  moreover from l have "\<not> isspace (hd (rev s))" by (simp add: hd_rev)
  ultimately have "dropWhile isspace (rev s) = rev s" by (rule dropWhile_keeps)
  with d show ?thesis by (simp add: strip_def)
qed

lemma strip_idem: "strip (strip s) = strip s"
  by (rule strip_fixed) (use hd_strip last_strip in blast)

lemma strip_trailing:
  assumes "xs \<noteq> []" "\<not> isspace (hd xs)" "\<not> isspace (last xs)" "\<forall>c\<in>set ws. isspace c"
  shows "strip (xs @ ws) = xs"
proof -
  from assms(1,2) have "dropWhile isspace (xs @ ws) = xs @ ws"
    by (intro dropWhile_keeps) simp_all
  moreover from assms(4) have "dropWhile isspace (rev ws @ rev xs) = dropWhile isspace (rev xs)"
    by (intro dropWhile_append2) simp
  moreover from assms(1,3) have "dropWhile isspace (rev xs) = rev xs"
    by (intro dropWhile_keeps) (simp_all add: hd_rev)
  ultimately show ?thesis by (simp add: strip_def)
qed

section \<open>One iteration, and the loop\<close>

lemma window_end_bounds:
  "0 < m \<Longrightarrow> i < int (length t) \<Longrightarrow>
   i < window_end t m i \<and> window_end t m i \<le> int (length t) \<and> window_end t m i \<le> i + m"
  by (simp add: window_end_def)

lemma candidate_window:
  assumes "0 < m" "0 \<le> i" "i < int (length t)"
  shows "candidate t m i = take (nat m) (drop (nat i) t)"
proof -
  from assms have b: "i < window_end t m i" "window_end t m i \<le> int (length t)"
    using window_end_bounds [of m i t] by simp_all
  with assms have c: "candidate t m i = take (nat (window_end t m i - i)) (drop (nat i) t)"
    by (simp add: candidate_def py_slice_inside)
  show ?thesis
  proof (cases "i + m \<le> int (length t)")
    case True
    then have "window_end t m i - i = m" by (simp add: window_end_def)
    with c show ?thesis by simp
  next
    case False
    then have "window_end t m i = int (length t)" by (simp add: window_end_def)
    with c False assms show ?thesis by simp
  qed
qed

lemma length_candidate:
  assumes "0 < m" "0 \<le> i" "i < int (length t)"
  shows "int (length (candidate t m i)) = window_end t m i - i"
proof -
  from assms have "i < window_end t m i" "window_end t m i \<le> int (length t)"
    using window_end_bounds [of m i t] by simp_all
  with assms show ?thesis by (simp add: candidate_def length_py_slice_inside)
qed

lemma split_pos_range:
  "- 1 \<le> split_pos t m i \<and> split_pos t m i < int (length (candidate t m i))"
  using rfind_range [of "candidate t m i" LF] rfind_range [of "candidate t m i" DOT]
  unfolding split_pos_def by linarith

lemma chunk_end_bounds:
  assumes "0 < m" "0 \<le> i" "i < int (length t)"
  shows "i < chunk_end t m i \<and> chunk_end t m i \<le> window_end t m i"
proof (cases "split_pos t m i > m div 2")
  case True
  from assms have "0 \<le> m div 2" by simp
  with True have "0 < split_pos t m i" by linarith
  moreover have "split_pos t m i < window_end t m i - i"
    using split_pos_range [of t m i] length_candidate [OF assms] by simp
  ultimately show ?thesis using True by (simp add: chunk_end_def)
next
  case False
  then show ?thesis using window_end_bounds [of m i t] assms by (simp add: chunk_end_def)
qed

lemma chunk_end_size:
  "chunk_end t m i = window_end t m i \<or> i + m div 2 + 1 < chunk_end t m i"
  by (simp add: chunk_end_def)

lemma last_delimiter:
  assumes "p = max (rfind w LF) (rfind w DOT)"
  shows "(p = - 1 \<and> LF \<notin> set w \<and> DOT \<notin> set w) \<or>
         (0 \<le> p \<and> nat p < length w \<and> (w ! nat p = LF \<or> w ! nat p = DOT) \<and>
          (\<forall>j. nat p < j \<and> j < length w \<longrightarrow> w ! j \<noteq> LF \<and> w ! j \<noteq> DOT))"
proof (cases "p < 0")
  case True
  with assms have "rfind w LF < 0" "rfind w DOT < 0" by simp_all
  then have "LF \<notin> set w" "DOT \<notin> set w" by (simp_all add: rfind_absent)
  moreover from assms True have "p = - 1"
    using rfind_range [of w LF] by linarith
  ultimately show ?thesis by simp
next
  case False
  then have p0: "0 \<le> p" by simp
  from assms have pr: "p < int (length w)"
    using rfind_range [of w LF] rfind_range [of w DOT] by linarith
  from assms have "p = rfind w LF \<or> p = rfind w DOT" by linarith
  with p0 have here: "w ! nat p = LF \<or> w ! nat p = DOT"
    using rfind_nth [of w LF] rfind_nth [of w DOT] by auto
  have after: "\<forall>j. nat p < j \<and> j < length w \<longrightarrow> w ! j \<noteq> LF \<and> w ! j \<noteq> DOT"
  proof (intro allI impI)
    fix j assume j: "nat p < j \<and> j < length w"
    with assms p0 have "rfind w LF < int j" "rfind w DOT < int j" by linarith+
    with j show "w ! j \<noteq> LF \<and> w ! j \<noteq> DOT" by (simp add: rfind_is_last)
  qed
  from p0 pr here after show ?thesis by simp
qed

lemma more_than_half: "(m div 2 < p) = (m < 2 * p)" for m p :: int
  by presburger

lemma chunk_end_half:
  "chunk_end t m i =
     (if m < 2 * split_pos t m i then i + split_pos t m i + 1 else min (i + m) (int (length t)))"
  by (simp add: chunk_end_def window_end_def more_than_half)

lemma chunk_slice:
  assumes "0 < m" "0 \<le> i" "i < int (length t)"
  shows "py_slice t i (chunk_end t m i) =
     (if m < 2 * split_pos t m i then take (nat (split_pos t m i) + 1) (candidate t m i)
      else candidate t m i)"
proof (cases "m < 2 * split_pos t m i")
  case True
  then have e: "chunk_end t m i = i + split_pos t m i + 1" by (simp add: chunk_end_half)
  from assms True have p0: "0 \<le> split_pos t m i" by linarith
  from assms have b: "i < chunk_end t m i" "chunk_end t m i \<le> window_end t m i"
    using chunk_end_bounds [of m i t] by simp_all
  from assms have w: "window_end t m i \<le> int (length t)" "window_end t m i \<le> i + m"
    using window_end_bounds [of m i t] by simp_all
  from assms b w have "py_slice t i (chunk_end t m i)
      = take (nat (chunk_end t m i - i)) (drop (nat i) t)"
    by (simp add: py_slice_inside)
  also from e p0 have "nat (chunk_end t m i - i) = nat (split_pos t m i) + 1" by simp
  also have "take (nat (split_pos t m i) + 1) (drop (nat i) t)
      = take (nat (split_pos t m i) + 1) (take (nat m) (drop (nat i) t))"
  proof -
    from e b w p0 have "nat (split_pos t m i) + 1 \<le> nat m" by linarith
    then show ?thesis by (simp add: min_absorb1)
  qed
  also from assms have "take (nat m) (drop (nat i) t) = candidate t m i"
    by (simp add: candidate_window)
  finally show ?thesis using True by simp
next
  case False
  then have "chunk_end t m i = window_end t m i" by (simp add: chunk_end_half window_end_def)
  with False show ?thesis by (simp add: candidate_def)
qed

lemma chunk_loop_step:
  "i < int (length t) \<Longrightarrow>
   chunk_loop t m i chunks
     = chunk_loop t m (chunk_end t m i) (chunks @ [strip (py_slice t i (chunk_end t m i))])"
  by (subst chunk_loop.simps) simp

lemma chunk_end_local:
  assumes "0 < m" "0 \<le> i" "i < int (length t)"
    and same: "take (nat (i + m)) t' = take (nat (i + m)) t"
  shows "chunk_end t' m i = chunk_end t m i"
proof -
  from same have "length (take (nat (i + m)) t') = length (take (nat (i + m)) t)" by simp
  then have len: "min (length t') (nat (i + m)) = min (length t) (nat (i + m))" by simp
  with assms have i': "i < int (length t')" by linarith
  from len assms have we: "window_end t' m i = window_end t m i"
    unfolding window_end_def by linarith
  from assms have n: "nat (i + m) = nat i + nat m" by simp
  have c: "take (nat m) (drop (nat i) s) = drop (nat i) (take (nat (i + m)) s)" for s :: pystr
    by (simp add: drop_take n)
  have "candidate t' m i = take (nat m) (drop (nat i) t')"
    using assms i' by (simp add: candidate_window)
  also have "\<dots> = drop (nat i) (take (nat (i + m)) t')" by (rule c)
  also have "\<dots> = drop (nat i) (take (nat (i + m)) t)" by (simp only: same)
  also have "\<dots> = take (nat m) (drop (nat i) t)" by (rule c [symmetric])
  also have "\<dots> = candidate t m i"
    using assms by (simp add: candidate_window)
  finally have "candidate t' m i = candidate t m i" .
  with we show ?thesis by (simp add: chunk_end_def split_pos_def)
qed

lemma natural_cut:
  assumes m: "0 < m" and i: "0 \<le> i" "i < int (length t)"
    and q: "int q < i + m" "q < length t" "m < 2 * (int q - i)"
    and d: "t ! q = LF \<or> t ! q = DOT"
    and later: "\<forall>j. q < j \<and> int j < i + m \<and> j < length t \<longrightarrow> t ! j \<noteq> LF \<and> t ! j \<noteq> DOT"
  shows "chunk_end t m i = int q + 1"
proof -
  let ?w = "candidate t m i"
  let ?p = "split_pos t m i"
  from m i have w: "?w = take (nat m) (drop (nat i) t)" by (rule candidate_window)
  from m q(3) have iq: "i \<le> int q" by arith
  define k where "k = q - nat i"
  from iq i have qk: "q = nat i + k" by (simp add: k_def)
  from q i iq have klen: "k < length ?w" unfolding w k_def by simp linarith
  from i have "nat i \<le> length t" by simp
  then have nth_w: "\<And>j. j < length ?w \<Longrightarrow> ?w ! j = t ! (nat i + j)"
    unfolding w by simp
  from klen d qk have dk: "?w ! k = LF \<or> ?w ! k = DOT" by (simp add: nth_w)
  from klen have "?w ! k \<in> set ?w" by simp
  with dk have "\<not> (LF \<notin> set ?w \<and> DOT \<notin> set ?w)" by auto
  with last_delimiter [of ?p ?w] have
    p: "0 \<le> ?p" "nat ?p < length ?w" "?w ! nat ?p = LF \<or> ?w ! nat ?p = DOT"
      "\<forall>j. nat ?p < j \<and> j < length ?w \<longrightarrow> ?w ! j \<noteq> LF \<and> ?w ! j \<noteq> DOT"
    by (auto simp: split_pos_def)
  have "\<not> nat ?p < k" using p(4) klen dk by blast
  moreover have "\<not> k < nat ?p"
  proof
    assume lt: "k < nat ?p"
    from p(2) have "nat ?p < length t - nat i" "nat ?p < nat m" unfolding w by simp_all
    then have "nat i + nat ?p < length t" "nat ?p < nat m" by linarith+
    with lt qk i m have "q < nat i + nat ?p \<and> int (nat i + nat ?p) < i + m \<and> nat i + nat ?p < length t"
      by simp
    with later have "t ! (nat i + nat ?p) \<noteq> LF \<and> t ! (nat i + nat ?p) \<noteq> DOT" by blast
    with p(2,3) show False by (simp add: nth_w)
  qed
  ultimately have "nat ?p = k" by simp
  with p(1) qk i have pq: "?p = int q - i" by simp
  with q show ?thesis by (simp add: chunk_end_half)
qed

lemma chunk_loop_slices:
  assumes m: "0 < m"
  shows "0 \<le> i \<Longrightarrow>
    \<exists>ss. chunk_loop t m i acc = Some (acc @ map strip ss) \<and>
         concat ss = drop (nat i) t \<and>
         (\<forall>s\<in>set ss. s \<noteq> [] \<and> int (length s) \<le> m \<and>
            (int (length s) = m \<or> m div 2 + 1 < int (length s) \<or> last s = last t))"
proof (induction "nat (int (length t) - i)" arbitrary: i acc rule: less_induct)
  case less
  show ?case
  proof (cases "i < int (length t)")
    case False
    then have "chunk_loop t m i acc = Some (acc @ map strip [])"
      by (simp add: chunk_loop.simps)
    moreover from False less.prems have "concat [] = drop (nat i) t" by simp
    ultimately show ?thesis by (metis empty_iff list.set(1))
  next
    case True
    let ?e = "chunk_end t m i"
    let ?s = "py_slice t i ?e"
    from m less.prems True have e: "i < ?e" "?e \<le> window_end t m i"
      using chunk_end_bounds [of m i t] by simp_all
    from m True have w: "window_end t m i \<le> int (length t)" "window_end t m i \<le> i + m"
      using window_end_bounds [of m i t] by simp_all
    from e w less.prems have len: "int (length ?s) = ?e - i"
      by (simp add: length_py_slice_inside)
    from e w less.prems have cat: "?s @ drop (nat ?e) t = drop (nat i) t"
      by (simp add: py_slice_append_drop)
    from e w have "nat (int (length t) - ?e) < nat (int (length t) - i)" by linarith
    moreover from e less.prems have "0 \<le> ?e" by simp
    ultimately obtain ss where
      ss: "chunk_loop t m ?e (acc @ [strip ?s]) = Some ((acc @ [strip ?s]) @ map strip ss)"
        "concat ss = drop (nat ?e) t"
        "\<forall>s\<in>set ss. s \<noteq> [] \<and> int (length s) \<le> m \<and>
            (int (length s) = m \<or> m div 2 + 1 < int (length s) \<or> last s = last t)"
      using less.hyps [of ?e "acc @ [strip ?s]"] by blast
    from True ss(1) have "chunk_loop t m i acc = Some (acc @ map strip (?s # ss))"
      by (subst chunk_loop.simps) simp
    moreover from cat ss(2) have "concat (?s # ss) = drop (nat i) t" by simp
    moreover have "?s \<noteq> []" using len e by auto
    moreover have "int (length ?s) \<le> m" using len e w by simp
    moreover have "int (length ?s) = m \<or> m div 2 + 1 < int (length ?s) \<or> last ?s = last t"
    proof (cases "?e = int (length t)")
      case True
      with cat have "?s = drop (nat i) t" by simp
      moreover from \<open>i < int (length t)\<close> less.prems have "nat i < length t" by simp
      ultimately show ?thesis by (simp add: last_drop)
    next
      case False
      with chunk_end_size [of t m i] len w e show ?thesis
        by (auto simp: window_end_def min_def split: if_splits)
    qed
    ultimately show ?thesis using ss(3) by (metis set_ConsD)
  qed
qed

lemma chunk_loop_from:
  assumes m: "0 < m"
  shows "0 \<le> i \<Longrightarrow>
    \<exists>r. chunk_loop t m i [] = Some r \<and> (\<forall>acc. chunk_loop t m i acc = Some (acc @ r))"
proof (induction "nat (int (length t) - i)" arbitrary: i rule: less_induct)
  case less
  show ?case
  proof (cases "i < int (length t)")
    case False
    then have "\<forall>acc. chunk_loop t m i acc = Some (acc @ [])"
      by (simp add: chunk_loop.simps)
    then show ?thesis by (metis append_Nil)
  next
    case True
    let ?e = "chunk_end t m i"
    let ?c = "strip (py_slice t i ?e)"
    from m less.prems True have e: "i < ?e" "?e \<le> window_end t m i"
      using chunk_end_bounds [of m i t] by simp_all
    from m True have w: "window_end t m i \<le> int (length t)"
      using window_end_bounds [of m i t] by simp
    from e w have "nat (int (length t) - ?e) < nat (int (length t) - i)" by linarith
    moreover from e less.prems have "0 \<le> ?e" by simp
    ultimately obtain r where r: "\<forall>acc. chunk_loop t m ?e acc = Some (acc @ r)"
      using less.hyps [of ?e] by blast
    have "chunk_loop t m i acc = Some (acc @ ?c # r)" for acc
    proof -
      from True have "chunk_loop t m i acc = chunk_loop t m ?e (acc @ [?c])"
        by (rule chunk_loop_step)
      also from r have "\<dots> = Some ((acc @ [?c]) @ r)" by blast
      finally show ?thesis by simp
    qed
    then show ?thesis by (metis append_Nil)
  qed
qed

lemma chunk_loop_first:
  assumes "0 < m" "0 \<le> i" "i < int (length t)"
  shows "\<exists>rest. chunk_loop t m (chunk_end t m i) [] = Some rest \<and>
           chunk_loop t m i chunks
             = Some (chunks @ strip (py_slice t i (chunk_end t m i)) # rest)"
proof -
  let ?e = "chunk_end t m i"
  from assms have "i < ?e" using chunk_end_bounds [of m i t] by simp
  with assms have "0 \<le> ?e" by simp
  with assms(1) obtain r where r: "chunk_loop t m ?e [] = Some r"
      "\<forall>acc. chunk_loop t m ?e acc = Some (acc @ r)"
    using chunk_loop_from [of m ?e t] by blast
  from assms(3) have "chunk_loop t m i chunks
      = chunk_loop t m ?e (chunks @ [strip (py_slice t i ?e)])"
    by (rule chunk_loop_step)
  also from r(2) have "\<dots> = Some ((chunks @ [strip (py_slice t i ?e)]) @ r)" by blast
  finally have "chunk_loop t m i chunks = Some (chunks @ strip (py_slice t i ?e) # r)" by simp
  with r(1) show ?thesis by blast
qed

lemma chunk_text_slices:
  assumes "0 < max_chars"
  shows "\<exists>ss. chunk_text text max_chars = Some (map strip ss) \<and>
         concat ss = normalized text \<and>
         (\<forall>s\<in>set ss. int (length s) \<le> max_chars) \<and>
         (int (length (normalized text)) \<le> max_chars \<or>
          (\<forall>s\<in>set ss. s \<noteq> [] \<and>
            (int (length s) = max_chars \<or> max_chars div 2 + 1 < int (length s) \<or>
             last s = last (normalized text))))"
proof (cases "int (length (normalized text)) \<le> max_chars")
  case True
  have "strip (normalized text) = normalized text"
    by (simp add: normalized_def strip_idem)
  with True have "chunk_text text max_chars = Some (map strip [normalized text])"
    by (simp add: chunk_text_def)
  moreover have "concat [normalized text] = normalized text" by simp
  moreover from True have "\<forall>s\<in>set [normalized text]. int (length s) \<le> max_chars" by simp
  ultimately show ?thesis using True by blast
next
  case False
  from assms obtain ss where
    ss: "chunk_loop (normalized text) max_chars 0 [] = Some ([] @ map strip ss)"
      "concat ss = drop (nat 0) (normalized text)"
      "\<forall>s\<in>set ss. s \<noteq> [] \<and> int (length s) \<le> max_chars \<and>
         (int (length s) = max_chars \<or> max_chars div 2 + 1 < int (length s) \<or>
          last s = last (normalized text))"
    using chunk_loop_slices [of max_chars 0 "normalized text" "[]"] by auto
  from False ss(1) have "chunk_text text max_chars = Some (map strip ss)"
    by (simp add: chunk_text_def)
  moreover from ss(2) have "concat ss = normalized text" by simp
  ultimately show ?thesis using ss(3) by blast
qed

lemma replace_crlf_id: "\<not> has_crlf s \<Longrightarrow> replace_crlf s = s"
  by (induction s rule: replace_crlf.induct) auto

lemma normalized_idem: "\<not> has_crlf (normalized text) \<Longrightarrow> normalized (normalized text) = normalized text"
  by (simp add: normalized_def replace_crlf_id strip_idem)

lemma takeWhile_le_longest: "length (takeWhile isspace s) \<le> longest_space_run s"
  by (cases s) simp_all

lemma space_run_bound:
  "\<forall>c\<in>set s. isspace c \<Longrightarrow> length s \<le> longest_space_run (a @ s @ b)"
proof (induction a)
  case Nil
  then have "takeWhile isspace (s @ b) = s @ takeWhile isspace b"
    by (simp add: takeWhile_append2)
  then have "length s \<le> length (takeWhile isspace (s @ b))" by simp
  also have "\<dots> \<le> longest_space_run (s @ b)" by (rule takeWhile_le_longest)
  finally show ?case by simp
next
  case (Cons x a)
  then have "length s \<le> longest_space_run (a @ s @ b)" by simp
  then show ?case by simp
qed

lemma concat_member_split: "s \<in> set ss \<Longrightarrow> \<exists>a b. concat ss = a @ s @ b"
proof -
  assume "s \<in> set ss"
  then obtain xs ys where "ss = xs @ s # ys" by (meson split_list)
  then have "concat ss = concat xs @ s @ concat ys" by simp
  then show ?thesis by blast
qed

lemma no_cr_no_crlf: "CR \<notin> set s \<Longrightarrow> \<not> has_crlf s"
  by (induction s rule: has_crlf.induct) auto

lemma scenario_B_length: "length scenario_B_text = 7000"
  by (simp add: scenario_B_text_def)

lemma scenario_B_normalized: "scenario_B_text = normalized scenario_B_text"
proof -
  have "CR \<notin> set scenario_B_text" by (simp add: scenario_B_text_def)
  then have r: "replace_crlf scenario_B_text = scenario_B_text"
    by (simp add: no_cr_no_crlf replace_crlf_id)
  have "hd scenario_B_text = 97" "last scenario_B_text = 97"
    by (simp_all add: scenario_B_text_def)
  then have "strip scenario_B_text = scenario_B_text"
    by (intro strip_fixed) (simp add: isspace_def)
  with r show ?thesis by (simp add: normalized_def)
qed

lemma scenario_B_newline: "scenario_B_text ! 2900 = LF"
  by (simp add: scenario_B_text_def nth_append)

lemma scenario_B_period: "scenario_B_text ! 3050 = DOT"
  by (simp add: scenario_B_text_def nth_append)

lemma scenario_B_between:
  "\<forall>j. 2900 < j \<and> int j < 0 + 3000 \<and> j < length scenario_B_text \<longrightarrow>
     scenario_B_text ! j \<noteq> LF \<and> scenario_B_text ! j \<noteq> DOT"
proof (intro allI impI)
  fix j :: nat
  assume j: "2900 < j \<and> int j < 0 + 3000 \<and> j < length scenario_B_text"
  then have "j - 2900 - 1 < 149" by linarith
  with j have "scenario_B_text ! j = 97"
    by (simp add: scenario_B_text_def nth_append nth_Cons')
  then show "scenario_B_text ! j \<noteq> LF \<and> scenario_B_text ! j \<noteq> DOT" by simp
qed

lemma scenario_B_first_chunk: "strip (py_slice scenario_B_text 0 2901) = replicate 2900 97"
proof -
  have "py_slice scenario_B_text 0 2901 = take (nat (2901 - 0)) (drop (nat 0) scenario_B_text)"
    by (rule py_slice_inside) (simp_all add: scenario_B_length)
  also have "\<dots> = replicate 2900 97 @ [LF]" by (simp add: scenario_B_text_def)
  finally have "py_slice scenario_B_text 0 2901 = replicate 2900 97 @ [LF]" .
  moreover have "strip (replicate 2900 97 @ [LF]) = replicate 2900 97"
    by (rule strip_trailing) (simp_all add: isspace_def)
  ultimately show ?thesis by simp
qed

section \<open>Evaluation of closed instances\<close>

lemmas chunk_eval =
  chunk_text_def normalized_def strip_def isspace_def py_def chunk_loop.simps chunk_end_def
  split_pos_def window_end_def candidate_def py_slice_def py_index_def Let_def

section \<open>The chunker's properties\<close>

text \<open>
  C1. Let the normalized text \<open>t\<close> be longer than a positive \<^verbatim>\<open>max_chars\<close>, so that
  \<^verbatim>\<open>chunk_text\<close> runs its loop from cursor 0, and let \<open>i\<close> be a cursor inside \<open>t\<close>. The
  iteration at \<open>i\<close> looks at the window \<open>w\<close> of the \<^verbatim>\<open>max_chars\<close> characters from \<open>i\<close> (fewer
  at the end of the text); its \<^verbatim>\<open>split_pos\<close> \<open>p\<close> is \<open>-1\<close> when \<open>w\<close> holds no newline and
  no period, and otherwise the greatest index of \<open>w\<close> that holds one of them; exactly
  when \<open>p\<close> is more than half of \<^verbatim>\<open>max_chars\<close> the slice ends at \<open>i + p + 1\<close> and is the
  window up to and with the delimiter, otherwise it ends at the end of the window and
  is the whole window; the loop goes on from that end with the trimmed slice appended,
  and what it returns is the chunks it had, this trimmed slice, and what the loop
  returns from that end; at the end of the text the loop returns the chunks it has.
  The end depends on the window only: a text that agrees with \<open>t\<close> up to the end of
  the window has the same end, and a delimiter at \<open>q\<close> in the second half of the
  window with no delimiter between it and the end of the window makes the chunk end
  at \<open>q + 1\<close>, whatever stands after the window (Scenario B).
\<close>

theorem chunk_text_iteration:
  assumes pos: "0 < max_chars"
    and t: "t = normalized text"
    and long: "max_chars < int (length t)"
    and i: "0 \<le> i" "i < int (length t)"
    and w: "w = candidate t max_chars i"
    and p: "p = split_pos t max_chars i"
    and e: "e = chunk_end t max_chars i"
  shows "chunk_text text max_chars = chunk_loop t max_chars 0 [] \<and>
     w = take (nat max_chars) (drop (nat i) t) \<and>
     ((p = - 1 \<and> LF \<notin> set w \<and> DOT \<notin> set w) \<or>
      (0 \<le> p \<and> nat p < length w \<and> (w ! nat p = LF \<or> w ! nat p = DOT) \<and>
       (\<forall>j. nat p < j \<and> j < length w \<longrightarrow> w ! j \<noteq> LF \<and> w ! j \<noteq> DOT))) \<and>
     e = (if max_chars < 2 * p then i + p + 1 else min (i + max_chars) (int (length t))) \<and>
     py_slice t i e = (if max_chars < 2 * p then take (nat p + 1) w else w) \<and>
     chunk_loop t max_chars i chunks
       = chunk_loop t max_chars e (chunks @ [strip (py_slice t i e)]) \<and>
     (\<exists>rest. chunk_loop t max_chars e [] = Some rest \<and>
        chunk_loop t max_chars i chunks = Some (chunks @ strip (py_slice t i e) # rest)) \<and>
     chunk_loop t max_chars (int (length t)) chunks = Some chunks \<and>
     (\<forall>t'. take (nat (i + max_chars)) t' = take (nat (i + max_chars)) t \<longrightarrow>
        chunk_end t' max_chars i = e) \<and>
     (\<forall>q. int q < i + max_chars \<and> q < length t \<and> max_chars < 2 * (int q - i) \<and>
        (t ! q = LF \<or> t ! q = DOT) \<and>
        (\<forall>j. q < j \<and> int j < i + max_chars \<and> j < length t \<longrightarrow> t ! j \<noteq> LF \<and> t ! j \<noteq> DOT)
        \<longrightarrow> e = int q + 1)"
proof -
  from t long have c1: "chunk_text text max_chars = chunk_loop t max_chars 0 []"
    by (simp add: chunk_text_def)
  have c2: "candidate t max_chars i = take (nat max_chars) (drop (nat i) t)"
    using pos i by (rule candidate_window)
  have c3: "(split_pos t max_chars i = - 1 \<and> LF \<notin> set (candidate t max_chars i) \<and>
        DOT \<notin> set (candidate t max_chars i)) \<or>
      (0 \<le> split_pos t max_chars i \<and> nat (split_pos t max_chars i) < length (candidate t max_chars i) \<and>
       (candidate t max_chars i ! nat (split_pos t max_chars i) = LF \<or>
        candidate t max_chars i ! nat (split_pos t max_chars i) = DOT) \<and>
       (\<forall>j. nat (split_pos t max_chars i) < j \<and> j < length (candidate t max_chars i) \<longrightarrow>
          candidate t max_chars i ! j \<noteq> LF \<and> candidate t max_chars i ! j \<noteq> DOT))"
    by (rule last_delimiter) (rule split_pos_def)
  have c4: "chunk_end t max_chars i =
      (if max_chars < 2 * split_pos t max_chars i then i + split_pos t max_chars i + 1
       else min (i + max_chars) (int (length t)))"
    by (rule chunk_end_half)
  have c5: "py_slice t i (chunk_end t max_chars i) =
      (if max_chars < 2 * split_pos t max_chars i
       then take (nat (split_pos t max_chars i) + 1) (candidate t max_chars i)
       else candidate t max_chars i)"
    using pos i by (rule chunk_slice)
  have c6: "chunk_loop t max_chars i chunks
       = chunk_loop t max_chars (chunk_end t max_chars i)
           (chunks @ [strip (py_slice t i (chunk_end t max_chars i))])"
    using i(2) by (rule chunk_loop_step)
  have c6': "\<exists>rest. chunk_loop t max_chars (chunk_end t max_chars i) [] = Some rest \<and>
        chunk_loop t max_chars i chunks
          = Some (chunks @ strip (py_slice t i (chunk_end t max_chars i)) # rest)"
    using pos i by (rule chunk_loop_first)
  have c6'': "chunk_loop t max_chars (int (length t)) chunks = Some chunks"
    by (simp add: chunk_loop.simps)
  have c7: "\<forall>t'. take (nat (i + max_chars)) t' = take (nat (i + max_chars)) t \<longrightarrow>
        chunk_end t' max_chars i = chunk_end t max_chars i"
  proof (intro allI impI)
    fix t' assume "take (nat (i + max_chars)) t' = take (nat (i + max_chars)) t"
    with pos i show "chunk_end t' max_chars i = chunk_end t max_chars i"
      by (rule chunk_end_local)
  qed
  have c8: "\<forall>q. int q < i + max_chars \<and> q < length t \<and> max_chars < 2 * (int q - i) \<and>
        (t ! q = LF \<or> t ! q = DOT) \<and>
        (\<forall>j. q < j \<and> int j < i + max_chars \<and> j < length t \<longrightarrow> t ! j \<noteq> LF \<and> t ! j \<noteq> DOT)
        \<longrightarrow> chunk_end t max_chars i = int q + 1"
  proof (intro allI impI, elim conjE)
    fix q
    assume "int q < i + max_chars" "q < length t" "max_chars < 2 * (int q - i)"
      "t ! q = LF \<or> t ! q = DOT"
      "\<forall>j. q < j \<and> int j < i + max_chars \<and> j < length t \<longrightarrow> t ! j \<noteq> LF \<and> t ! j \<noteq> DOT"
    with pos i show "chunk_end t max_chars i = int q + 1" by (rule natural_cut)
  qed
  from c1 c2 c3 c4 c5 c6 c6' c6'' c7 c8 show ?thesis unfolding w p e by (intro conjI)
qed

theorem chunk_text_iteration_witness:
  "(0::int) < 3000 \<and> scenario_B_text = normalized scenario_B_text \<and>
   length scenario_B_text = 7000 \<and> scenario_B_text ! 2900 = LF \<and>
   scenario_B_text ! 3050 = DOT \<and>
   chunk_end scenario_B_text 3000 0 = 2901 \<and>
   chunk_text scenario_B_text 3000
     = chunk_loop scenario_B_text 3000 2901 [strip (py_slice scenario_B_text 0 2901)] \<and>
   (\<exists>rest. chunk_loop scenario_B_text 3000 2901 [] = Some rest \<and>
      chunk_text scenario_B_text 3000 = Some (replicate 2900 97 # rest))"
proof -
  have pos: "(0::int) < 3000" by simp
  have long: "3000 < int (length scenario_B_text)" by (simp add: scenario_B_length)
  have i: "(0::int) \<le> 0" "0 < int (length scenario_B_text)" by (simp_all add: scenario_B_length)
  note it = chunk_text_iteration [OF pos scenario_B_normalized long i refl refl refl, of "[]"]
  have q: "int 2900 < 0 + 3000 \<and> 2900 < length scenario_B_text \<and> 3000 < 2 * (int 2900 - 0) \<and>
      (scenario_B_text ! 2900 = LF \<or> scenario_B_text ! 2900 = DOT)"
    by (simp add: scenario_B_length scenario_B_newline)
  from it q scenario_B_between have e: "chunk_end scenario_B_text 3000 0 = int 2900 + 1"
    by blast
  from it have "chunk_text scenario_B_text 3000
      = chunk_loop scenario_B_text 3000 (chunk_end scenario_B_text 3000 0)
          ([] @ [strip (py_slice scenario_B_text 0 (chunk_end scenario_B_text 3000 0))])"
    by simp
  with e have step: "chunk_text scenario_B_text 3000
     = chunk_loop scenario_B_text 3000 2901 [strip (py_slice scenario_B_text 0 2901)]"
    by simp
  from it obtain rest where
    "chunk_loop scenario_B_text 3000 (chunk_end scenario_B_text 3000 0) [] = Some rest"
    "chunk_loop scenario_B_text 3000 0 []
      = Some ([] @ strip (py_slice scenario_B_text 0 (chunk_end scenario_B_text 3000 0)) # rest)"
    by blast
  moreover from it have "chunk_text scenario_B_text 3000 = chunk_loop scenario_B_text 3000 0 []"
    by blast
  ultimately have first: "\<exists>rest. chunk_loop scenario_B_text 3000 2901 [] = Some rest \<and>
      chunk_text scenario_B_text 3000 = Some (replicate 2900 97 # rest)"
    using e by (simp add: scenario_B_first_chunk)
  have e': "chunk_end scenario_B_text 3000 0 = 2901" using e by simp
  from pos scenario_B_normalized scenario_B_length scenario_B_newline scenario_B_period
    e' step first
  show ?thesis by (intro conjI)
qed

text \<open>
  C2. For every input text and every positive \<^verbatim>\<open>max_chars\<close>, \<^verbatim>\<open>chunk_text\<close> returns, and
  every string of the sequence it returns has at most \<^verbatim>\<open>max_chars\<close> characters.
\<close>

theorem chunk_text_size_bound:
  assumes "0 < max_chars"
  shows "\<exists>chunks. chunk_text text max_chars = Some chunks \<and>
           (\<forall>c\<in>set chunks. int (length c) \<le> max_chars)"
proof -
  from assms obtain ss where
    ss: "chunk_text text max_chars = Some (map strip ss)"
      "\<forall>s\<in>set ss. int (length s) \<le> max_chars"
    using chunk_text_slices [of max_chars "text"] by blast
  have "\<forall>c\<in>set (map strip ss). int (length c) \<le> max_chars"
  proof
    fix c assume "c \<in> set (map strip ss)"
    then obtain s where s: "s \<in> set ss" and c: "c = strip s" by auto
    have "length (strip s) \<le> length s" by (rule length_strip)
    with s ss(2) c show "int (length c) \<le> max_chars" by fastforce
  qed
  with ss(1) show ?thesis by blast
qed

theorem chunk_text_size_bound_witness:
  "(0::int) < 6 \<and>
   chunk_text (py ''  abc. de fgh.ij  '') 6 = Some [py ''abc. d'', py ''e fgh.'', py ''ij''] \<and>
   (\<exists>chunks. chunk_text (py ''  abc. de fgh.ij  '') 6 = Some chunks \<and>
      (\<forall>c\<in>set chunks. int (length c) \<le> 6))"
proof -
  have h: "(0::int) < 6" by simp
  have e: "chunk_text (py ''  abc. de fgh.ij  '') 6 = Some [py ''abc. d'', py ''e fgh.'', py ''ij'']"
    by (simp add: chunk_eval)
  from h e chunk_text_size_bound [OF h, of "py ''  abc. de fgh.ij  ''"] show ?thesis by blast
qed

text \<open>
  C3. For every input text and every positive \<^verbatim>\<open>max_chars\<close>, the normalized text
  (CRLF replaced by LF, then trimmed) is the concatenation of consecutive slices, the
  returned chunks are these slices in order, each trimmed, and a trimmed slice differs
  from the slice only by whitespace at its two ends: putting that whitespace back and
  concatenating gives the normalized text.
\<close>

theorem chunk_text_reconstruction:
  assumes "0 < max_chars"
  shows "\<exists>slices. chunk_text text max_chars = Some (map strip slices) \<and>
           concat slices = normalized text \<and>
           (\<forall>s\<in>set slices. \<exists>l r. s = l @ strip s @ r \<and>
              (\<forall>c\<in>set l. isspace c) \<and> (\<forall>c\<in>set r. isspace c))"
proof -
  from assms obtain ss where
    "chunk_text text max_chars = Some (map strip ss)" "concat ss = normalized text"
    using chunk_text_slices [of max_chars "text"] by blast
  moreover have "\<forall>s\<in>set ss. \<exists>l r. s = l @ strip s @ r \<and>
              (\<forall>c\<in>set l. isspace c) \<and> (\<forall>c\<in>set r. isspace c)"
    using strip_decompose by blast
  ultimately show ?thesis by blast
qed

theorem chunk_text_reconstruction_witness:
  "(0::int) < 4 \<and>
   chunk_text (py ''a. b  c'') 4 = Some [py ''a. b'', py ''c''] \<and>
   (\<exists>slices. chunk_text (py ''a. b  c'') 4 = Some (map strip slices) \<and>
      concat slices = normalized (py ''a. b  c'') \<and>
      (\<forall>s\<in>set slices. \<exists>l r. s = l @ strip s @ r \<and>
         (\<forall>c\<in>set l. isspace c) \<and> (\<forall>c\<in>set r. isspace c)))"
proof -
  have h: "(0::int) < 4" by simp
  have e: "chunk_text (py ''a. b  c'') 4 = Some [py ''a. b'', py ''c'']"
    by (simp add: chunk_eval)
  from h e chunk_text_reconstruction [OF h, of "py ''a. b  c''"] show ?thesis by blast
qed

text \<open>
  C4, as the code has it. A chunk is the trimmed form of a slice, and nothing drops a
  slice that holds whitespace only: the trimmed text \<^verbatim>\<open>"a    b"\<close> with
  \<^verbatim>\<open>max_chars = 2\<close> is cut into \<^verbatim>\<open>"a "\<close>, two blanks and \<^verbatim>\<open>" b"\<close>, and the second chunk
  is the empty string.
\<close>

theorem chunk_text_empty_chunk_counterexample:
  "py ''a    b'' \<noteq> [] \<and> strip (py ''a    b'') = py ''a    b'' \<and> (0::int) < 2 \<and>
   chunk_text (py ''a    b'') 2 = Some [py ''a'', [], py ''b'']"
  by (simp add: chunk_eval)

text \<open>
  C4, amended. For every text whose normalized form is not empty and holds no run of
  more than \<^verbatim>\<open>max_chars // 2\<close> consecutive whitespace characters, and every positive
  \<^verbatim>\<open>max_chars\<close>, \<^verbatim>\<open>chunk_text\<close> returns and no string of the sequence it returns is
  empty.
\<close>

theorem chunk_text_nonempty_chunks:
  assumes pos: "0 < max_chars"
    and ne: "normalized text \<noteq> []"
    and run: "int (longest_space_run (normalized text)) \<le> max_chars div 2"
  shows "\<exists>chunks. chunk_text text max_chars = Some chunks \<and> [] \<notin> set chunks"
proof (cases "int (length (normalized text)) \<le> max_chars")
  case True
  with ne show ?thesis by (simp add: chunk_text_def)
next
  case False
  with pos obtain ss where
    ss: "chunk_text text max_chars = Some (map strip ss)"
      "concat ss = normalized text"
      "\<forall>s\<in>set ss. s \<noteq> [] \<and>
            (int (length s) = max_chars \<or> max_chars div 2 + 1 < int (length s) \<or>
             last s = last (normalized text))"
    using chunk_text_slices [of max_chars "text"] by blast
  have last_t: "\<not> isspace (last (normalized text))"
    using ne last_strip [of "replace_crlf text"] by (simp add: normalized_def)
  have "[] \<notin> set (map strip ss)"
  proof
    assume "[] \<in> set (map strip ss)"
    then obtain s where s: "s \<in> set ss" and e: "strip s = []" by auto
    from e have sp: "\<forall>c\<in>set s. isspace c" by (simp add: strip_empty_iff)
    from s ss(2) obtain a b where "normalized text = a @ s @ b"
      using concat_member_split [of s ss] by auto
    with sp have "length s \<le> longest_space_run (normalized text)"
      using space_run_bound [of s a b] by simp
    with run have short: "int (length s) \<le> max_chars div 2" by simp
    from s ss(3) have cases: "s \<noteq> []" "int (length s) = max_chars \<or>
        max_chars div 2 + 1 < int (length s) \<or> last s = last (normalized text)" by auto
    from cases(2) show False
    proof (elim disjE)
      assume "int (length s) = max_chars"
      with short pos show False by simp
    next
      assume "max_chars div 2 + 1 < int (length s)"
      with short show False by simp
    next
      assume "last s = last (normalized text)"
      moreover from cases(1) have "last s \<in> set s" by simp
      ultimately show False using sp last_t by auto
    qed
  qed
  with ss(1) show ?thesis by blast
qed

theorem chunk_text_nonempty_chunks_witness:
  "(0::int) < 6 \<and> normalized (py ''  abc. de fgh.ij  '') \<noteq> [] \<and>
   int (longest_space_run (normalized (py ''  abc. de fgh.ij  ''))) \<le> 6 div 2 \<and>
   (\<exists>chunks. chunk_text (py ''  abc. de fgh.ij  '') 6 = Some chunks \<and> [] \<notin> set chunks)"
proof -
  have h: "(0::int) < 6" by simp
  have n: "normalized (py ''  abc. de fgh.ij  '') \<noteq> []"
    by (simp add: normalized_def strip_def isspace_def py_def)
  have r: "int (longest_space_run (normalized (py ''  abc. de fgh.ij  ''))) \<le> 6 div 2"
    by (simp add: normalized_def strip_def isspace_def py_def)
  from h n r chunk_text_nonempty_chunks [OF h n r] show ?thesis by blast
qed

text \<open>
  C5. When the normalized text has at most \<^verbatim>\<open>max_chars\<close> characters, \<^verbatim>\<open>chunk_text\<close>
  returns the one-element sequence of the whole normalized text, whatever newlines and
  periods the text holds; in particular for 2500 characters and \<^verbatim>\<open>max_chars = 3000\<close>.
\<close>

theorem chunk_text_single_chunk:
  "(int (length (normalized text)) \<le> max_chars \<longrightarrow>
      chunk_text text max_chars = Some [normalized text]) \<and>
   (length (normalized text) = 2500 \<longrightarrow> chunk_text text 3000 = Some [normalized text])"
  by (simp add: chunk_text_def)

theorem chunk_text_single_chunk_witness:
  "int (length (normalized (py '' ab. cd ''))) \<le> 3000 \<and>
   chunk_text (py '' ab. cd '') 3000 = Some [py ''ab. cd'']"
proof -
  have h: "int (length (normalized (py '' ab. cd ''))) \<le> 3000"
    by (simp add: normalized_def strip_def isspace_def py_def)
  have n: "normalized (py '' ab. cd '') = py ''ab. cd''"
    by (simp add: normalized_def strip_def isspace_def py_def)
  from h n chunk_text_single_chunk [of "py '' ab. cd ''" 3000] show ?thesis by simp
qed

text \<open>
  C9. For every input text and every positive \<^verbatim>\<open>max_chars\<close>, \<^verbatim>\<open>chunk_text\<close> returns; and
  at every cursor position inside the normalized text the end of the iteration lies
  strictly after the cursor and not after the end of the text, in the branch of the
  natural boundary as in the branch of the hard cut.
\<close>

theorem chunk_text_terminates:
  assumes "0 < max_chars"
  shows "(\<exists>chunks. chunk_text text max_chars = Some chunks) \<and>
         (\<forall>i. 0 \<le> i \<and> i < int (length (normalized text)) \<longrightarrow>
            i < chunk_end (normalized text) max_chars i \<and>
            chunk_end (normalized text) max_chars i \<le> int (length (normalized text)))"
proof
  from assms show "\<exists>chunks. chunk_text text max_chars = Some chunks"
    using chunk_text_slices [of max_chars "text"] by blast
next
  show "\<forall>i. 0 \<le> i \<and> i < int (length (normalized text)) \<longrightarrow>
            i < chunk_end (normalized text) max_chars i \<and>
            chunk_end (normalized text) max_chars i \<le> int (length (normalized text))"
  proof (intro allI impI)
    fix i assume i: "0 \<le> i \<and> i < int (length (normalized text))"
    with assms have "i < chunk_end (normalized text) max_chars i"
      "chunk_end (normalized text) max_chars i \<le> window_end (normalized text) max_chars i"
      using chunk_end_bounds [of max_chars i "normalized text"] by simp_all
    moreover from assms i have "window_end (normalized text) max_chars i \<le> int (length (normalized text))"
      using window_end_bounds [of max_chars i "normalized text"] by simp
    ultimately show "i < chunk_end (normalized text) max_chars i \<and>
            chunk_end (normalized text) max_chars i \<le> int (length (normalized text))" by simp
  qed
qed

theorem chunk_text_terminates_witness:
  "(0::int) < 6 \<and>
   (\<exists>chunks. chunk_text (py ''  abc. de fgh.ij  '') 6 = Some chunks) \<and>
   6 < chunk_end (normalized (py ''  abc. de fgh.ij  '')) 6 6 \<and>
   chunk_end (normalized (py ''  abc. de fgh.ij  '')) 6 6
     \<le> int (length (normalized (py ''  abc. de fgh.ij  '')))"
proof -
  have h: "(0::int) < 6" by simp
  have i: "(0::int) \<le> 6 \<and> 6 < int (length (normalized (py ''  abc. de fgh.ij  '')))"
    by (simp add: normalized_def strip_def isspace_def py_def)
  from h i chunk_text_terminates [OF h, of "py ''  abc. de fgh.ij  ''"] show ?thesis by blast
qed

text \<open>
  C10, as the code has it. \<^verbatim>\<open>str.replace\<close> is one pass, so the normalized text can
  hold a CRLF pair again: \<^verbatim>\<open>"a\r\r\nb"\<close> becomes \<^verbatim>\<open>"a\r\nb"\<close>. \<^verbatim>\<open>chunk_text\<close> of the
  former returns \<^verbatim>\<open>["a\r\nb"]\<close>, and \<^verbatim>\<open>chunk_text\<close> of its normalized form normalizes
  once more and returns \<^verbatim>\<open>["a\nb"]\<close>.
\<close>

theorem chunk_text_renormalize_counterexample:
  "chunk_text [97, CR, CR, LF, 98] 3000 = Some [[97, CR, LF, 98]] \<and>
   chunk_text (normalized [97, CR, CR, LF, 98]) 3000 = Some [[97, LF, 98]] \<and>
   chunk_text [97, CR, CR, LF, 98] 3000 \<noteq> chunk_text (normalized [97, CR, CR, LF, 98]) 3000"
  by (simp add: chunk_eval)

text \<open>
  C10, amended. \<^verbatim>\<open>chunk_text\<close> normalizes its own input, so for every text whose
  normalized form holds no CRLF pair, and every \<^verbatim>\<open>max_chars\<close>, \<^verbatim>\<open>chunk_text\<close> of the
  text equals \<^verbatim>\<open>chunk_text\<close> of its normalized form.
\<close>

theorem chunk_text_renormalize:
  assumes "\<not> has_crlf (normalized text)"
  shows "chunk_text (normalized text) max_chars = chunk_text text max_chars"
  using assms by (simp add: chunk_text_def normalized_idem)

theorem chunk_text_renormalize_witness:
  "\<not> has_crlf (normalized (py ''  ab'' @ [CR, LF] @ py ''cd. ef  '')) \<and>
   chunk_text (normalized (py ''  ab'' @ [CR, LF] @ py ''cd. ef  '')) 5
     = chunk_text (py ''  ab'' @ [CR, LF] @ py ''cd. ef  '') 5"
proof -
  have h: "\<not> has_crlf (normalized (py ''  ab'' @ [CR, LF] @ py ''cd. ef  ''))"
    by (simp add: normalized_def strip_def isspace_def py_def)
  from h chunk_text_renormalize [OF h] show ?thesis by blast
qed

section \<open>The orchestrator's properties\<close>

text \<open>
  The loop over the chunks stops at the first chunk whose call does not give a text:
  when the call raises, with the \<^verbatim>\<open>RuntimeError\<close> that names the chunk; when the
  response holds no text, with the \<^verbatim>\<open>AttributeError\<close> of \<^verbatim>\<open>s.strip()\<close>. In both cases
  the service has received the prompts up to that chunk.
\<close>

lemma summarize_each_stops:
  assumes "k < length chunks"
    and "\<forall>j<k. \<exists>r. generate_content a
            (service_log w @ map (chunk_prompt (cfg_per_chunk_words a)) (take j chunks))
            (chunk_prompt (cfg_per_chunk_words a) (chunks ! j)) = Inr (Some r)"
    and "generate_content a
            (service_log w @ map (chunk_prompt (cfg_per_chunk_words a)) (take k chunks))
            (chunk_prompt (cfg_per_chunk_words a) (chunks ! k)) = answer"
    and "answer = Inl cause \<or> answer = Inr None"
  shows "summarize_each a w i chunks acc =
     (Inl (case answer of
             Inl c \<Rightarrow> RuntimeError (py ''Error while summarizing chunk '' @ str_int (i + int k) @
                         py '': '' @ py ''Gemini summarize_chunk error: '' @ c)
           | Inr x \<Rightarrow> AttributeError none_has_no_strip),
      w\<lparr>service_log := service_log w @
            map (chunk_prompt (cfg_per_chunk_words a)) (take (Suc k) chunks)\<rparr>)"
  using assms
proof (induction chunks arbitrary: k w i acc)
  case Nil
  then show ?case by simp
next
  case (Cons chunk rest)
  let ?P = "chunk_prompt (cfg_per_chunk_words a)"
  show ?case
  proof (cases k)
    case 0
    with Cons.prems(3) have "generate_content a (service_log w) (?P chunk) = answer" by simp
    with 0 Cons.prems(4) show ?thesis
      by (auto simp: summarize_chunk_def strip_or_raise_def Let_def)
  next
    case (Suc k')
    from Cons.prems(2) Suc have "\<exists>r. generate_content a (service_log w) (?P chunk) = Inr (Some r)"
      by force
    then obtain r where r: "generate_content a (service_log w) (?P chunk) = Inr (Some r)" ..
    define w' where "w' = w\<lparr>service_log := service_log w @ [?P chunk]\<rparr>"
    from r have sc: "summarize_chunk (generate_content a) w chunk (cfg_per_chunk_words a)
        = (Inr (Some r), w')"
      by (simp add: summarize_chunk_def Let_def w'_def)
    have k': "k' < length rest" using Cons.prems(1) Suc by simp
    have before: "\<forall>j<k'. \<exists>r. generate_content a (service_log w' @ map ?P (take j rest))
          (?P (rest ! j)) = Inr (Some r)"
    proof (intro allI impI)
      fix j assume "j < k'"
      with Suc have "Suc j < k" by simp
      with Cons.prems(2) have "\<exists>r. generate_content a
          (service_log w @ map ?P (take (Suc j) (chunk # rest))) (?P ((chunk # rest) ! Suc j))
            = Inr (Some r)"
        by blast
      then show "\<exists>r. generate_content a (service_log w' @ map ?P (take j rest))
          (?P (rest ! j)) = Inr (Some r)"
        by (simp add: w'_def)
    qed
    have stop: "generate_content a (service_log w' @ map ?P (take k' rest)) (?P (rest ! k')) = answer"
      using Cons.prems(3) Suc by (simp add: w'_def)
    have "summarize_each a w' (i + 1) rest (acc @ [strip r]) =
      (Inl (case answer of
             Inl c \<Rightarrow> RuntimeError (py ''Error while summarizing chunk '' @ str_int (i + 1 + int k') @
                         py '': '' @ py ''Gemini summarize_chunk error: '' @ c)
           | Inr x \<Rightarrow> AttributeError none_has_no_strip),
       w'\<lparr>service_log := service_log w' @ map ?P (take (Suc k') rest)\<rparr>)"
      using k' before stop Cons.prems(4) by (rule Cons.IH)
    with sc Suc show ?thesis
      by (simp add: w'_def add.assoc strip_or_raise_def split: sum.splits)
  qed
qed

lemma prompts_differ: "aggregate_prompt n ss \<noteq> chunk_prompt n' chunk"
proof -
  have "hd (aggregate_prompt n ss) = 67" by (simp add: aggregate_prompt_def py_def)
  moreover have "hd (chunk_prompt n' chunk) = 83" by (simp add: chunk_prompt_def py_def)
  ultimately show ?thesis by auto
qed

lemma extract_keeps:
  "extract_text_from_pdf fitz w file_bytes = (r, w1) \<Longrightarrow>
   service_log w1 = service_log w \<and> summary_cache w1 = summary_cache w"
  by (auto simp: extract_text_from_pdf_def Let_def split: sum.splits)

lemma cache_hit:
  "summary_cache w (sha256_hexdigest a file_bytes) = Some final \<Longrightarrow>
   summarize_uploaded_pdf a w file_bytes = Some (Inr final, w)"
  by (simp add: summarize_uploaded_pdf_def file_hash_bytes_def Let_def)

lemma success_is_cached:
  assumes "summarize_uploaded_pdf a w file_bytes = Some (Inr final, w1)"
  shows "summary_cache w1 (sha256_hexdigest a file_bytes) = Some final"
  using assms
  by (auto simp: summarize_uploaded_pdf_def file_hash_bytes_def Let_def
      split: option.splits prod.splits sum.splits if_splits)

lemma map_stage_error:
  assumes "summary_cache w (file_hash_bytes a file_bytes) = None"
    and "extract_text_from_pdf (fitz_pages a) w file_bytes = (Inr text, w1)"
    and "strip text \<noteq> []"
    and "chunk_text text (cfg_max_chars a) = Some chunks"
    and "summarize_each a w1 1 chunks [] = (Inl e, w2)"
  shows "summarize_uploaded_pdf a w file_bytes = Some (Inl e, w2)"
proof -
  from assms(3) have "text \<noteq> []" by (auto simp: strip_def)
  with assms show ?thesis by (simp add: summarize_uploaded_pdf_def Let_def)
qed

text \<open>
  The path the source provides for: the call for the chunk at position \<open>k\<close> (counted
  from 0) raises, after the calls before it gave a text. The run ends with a
  \<^verbatim>\<open>RuntimeError\<close> whose message names the chunk by its number \<open>k + 1\<close> and ends with the
  message of the service's exception; the service has received the prompts of the
  first \<open>k + 1\<close> chunks and no aggregation prompt, and the cache is as it was.
\<close>

lemma raised_failure_names_chunk:
  assumes miss: "summary_cache w (file_hash_bytes a file_bytes) = None"
    and ext: "extract_text_from_pdf (fitz_pages a) w file_bytes = (Inr text, w1)"
    and usable: "strip text \<noteq> []"
    and chunks: "chunk_text text (cfg_max_chars a) = Some chunks"
    and k: "k < length chunks"
    and before: "\<forall>j<k. \<exists>r. generate_content a
            (service_log w @ map (chunk_prompt (cfg_per_chunk_words a)) (take j chunks))
            (chunk_prompt (cfg_per_chunk_words a) (chunks ! j)) = Inr (Some r)"
    and fails: "generate_content a
            (service_log w @ map (chunk_prompt (cfg_per_chunk_words a)) (take k chunks))
            (chunk_prompt (cfg_per_chunk_words a) (chunks ! k)) = Inl cause"
  shows "summarize_uploaded_pdf a w file_bytes =
       Some (Inl (RuntimeError (py ''Error while summarizing chunk '' @ str_int (int k + 1) @
                 py '': Gemini summarize_chunk error: '' @ cause)),
             w1\<lparr>service_log := service_log w @
                   map (chunk_prompt (cfg_per_chunk_words a)) (take (Suc k) chunks)\<rparr>) \<and>
     (\<forall>n ss. aggregate_prompt n ss \<notin>
          set (map (chunk_prompt (cfg_per_chunk_words a)) (take (Suc k) chunks))) \<and>
     summary_cache w1 = summary_cache w"
proof -
  let ?P = "chunk_prompt (cfg_per_chunk_words a)"
  from ext have keep: "service_log w1 = service_log w" "summary_cache w1 = summary_cache w"
    using extract_keeps [of "fitz_pages a" w file_bytes "Inr text" w1] by simp_all
  from before keep have before1: "\<forall>j<k. \<exists>r. generate_content a
      (service_log w1 @ map ?P (take j chunks)) (?P (chunks ! j)) = Inr (Some r)" by simp
  from fails keep have fails1: "generate_content a
      (service_log w1 @ map ?P (take k chunks)) (?P (chunks ! k)) = Inl cause" by simp
  have "Inl cause = Inl cause \<or> Inl cause = (Inr None :: pystr + pystr option)" by simp
  with k before1 fails1 have "summarize_each a w1 1 chunks [] =
     (Inl (case (Inl cause :: pystr + pystr option) of
             Inl c \<Rightarrow> RuntimeError (py ''Error while summarizing chunk '' @ str_int (1 + int k) @
                         py '': '' @ py ''Gemini summarize_chunk error: '' @ c)
           | Inr x \<Rightarrow> AttributeError none_has_no_strip),
      w1\<lparr>service_log := service_log w1 @ map ?P (take (Suc k) chunks)\<rparr>)"
    by (rule summarize_each_stops)
  with keep have each: "summarize_each a w1 1 chunks [] =
     (Inl (RuntimeError (py ''Error while summarizing chunk '' @ str_int (int k + 1) @
                 py '': Gemini summarize_chunk error: '' @ cause)),
      w1\<lparr>service_log := service_log w @ map ?P (take (Suc k) chunks)\<rparr>)"
    by (simp add: py_def add.commute)
  have "summarize_uploaded_pdf a w file_bytes =
       Some (Inl (RuntimeError (py ''Error while summarizing chunk '' @ str_int (int k + 1) @
                 py '': Gemini summarize_chunk error: '' @ cause)),
             w1\<lparr>service_log := service_log w @ map ?P (take (Suc k) chunks)\<rparr>)"
    using miss ext usable chunks each by (rule map_stage_error)
  moreover have "\<forall>n ss. aggregate_prompt n ss \<notin> set (map ?P (take (Suc k) chunks))"
    using prompts_differ by auto
  ultimately show ?thesis using keep by blast
qed

text \<open>
  The path the source does not provide for: the response for the chunk at position
  \<open>k\<close> holds no text. \<^verbatim>\<open>summarize_chunk\<close> returns \<^verbatim>\<open>None\<close>, and \<^verbatim>\<open>s.strip()\<close>, after the
  \<^verbatim>\<open>try\<close>, raises an \<^verbatim>\<open>AttributeError\<close> whose message holds neither the chunk's number
  nor anything of the response. The run ends there all the same: the service has
  received the prompts of the first \<open>k + 1\<close> chunks and no aggregation prompt, and the
  cache is as it was.
\<close>

lemma response_without_text_raises:
  assumes miss: "summary_cache w (file_hash_bytes a file_bytes) = None"
    and ext: "extract_text_from_pdf (fitz_pages a) w file_bytes = (Inr text, w1)"
    and usable: "strip text \<noteq> []"
    and chunks: "chunk_text text (cfg_max_chars a) = Some chunks"
    and k: "k < length chunks"
    and before: "\<forall>j<k. \<exists>r. generate_content a
            (service_log w @ map (chunk_prompt (cfg_per_chunk_words a)) (take j chunks))
            (chunk_prompt (cfg_per_chunk_words a) (chunks ! j)) = Inr (Some r)"
    and no_text: "generate_content a
            (service_log w @ map (chunk_prompt (cfg_per_chunk_words a)) (take k chunks))
            (chunk_prompt (cfg_per_chunk_words a) (chunks ! k)) = Inr None"
  shows "summarize_uploaded_pdf a w file_bytes =
       Some (Inl (AttributeError none_has_no_strip),
             w1\<lparr>service_log := service_log w @
                   map (chunk_prompt (cfg_per_chunk_words a)) (take (Suc k) chunks)\<rparr>) \<and>
     (\<forall>n ss. aggregate_prompt n ss \<notin>
          set (map (chunk_prompt (cfg_per_chunk_words a)) (take (Suc k) chunks))) \<and>
     summary_cache w1 = summary_cache w"
proof -
  let ?P = "chunk_prompt (cfg_per_chunk_words a)"
  from ext have keep: "service_log w1 = service_log w" "summary_cache w1 = summary_cache w"
    using extract_keeps [of "fitz_pages a" w file_bytes "Inr text" w1] by simp_all
  from before keep have before1: "\<forall>j<k. \<exists>r. generate_content a
      (service_log w1 @ map ?P (take j chunks)) (?P (chunks ! j)) = Inr (Some r)" by simp
  from no_text keep have no_text1: "generate_content a
      (service_log w1 @ map ?P (take k chunks)) (?P (chunks ! k)) = Inr None" by simp
  have "(Inr None :: pystr + pystr option) = Inl [] \<or> (Inr None :: pystr + pystr option) = Inr None"
    by simp
  with k before1 no_text1 have "summarize_each a w1 1 chunks [] =
     (Inl (case (Inr None :: pystr + pystr option) of
             Inl c \<Rightarrow> RuntimeError (py ''Error while summarizing chunk '' @ str_int (1 + int k) @
                         py '': '' @ py ''Gemini summarize_chunk error: '' @ c)
           | Inr x \<Rightarrow> AttributeError none_has_no_strip),
      w1\<lparr>service_log := service_log w1 @ map ?P (take (Suc k) chunks)\<rparr>)"
    by (rule summarize_each_stops)
  with keep have each: "summarize_each a w1 1 chunks [] =
     (Inl (AttributeError none_has_no_strip),
      w1\<lparr>service_log := service_log w @ map ?P (take (Suc k) chunks)\<rparr>)"
    by simp
  have "summarize_uploaded_pdf a w file_bytes =
       Some (Inl (AttributeError none_has_no_strip),
             w1\<lparr>service_log := service_log w @ map ?P (take (Suc k) chunks)\<rparr>)"
    using miss ext usable chunks each by (rule map_stage_error)
  moreover have "\<forall>n ss. aggregate_prompt n ss \<notin> set (map ?P (take (Suc k) chunks))"
    using prompts_differ by auto
  ultimately show ?thesis using keep by blast
qed

lemmas app_eval =
  example_app_def fresh_world_def second_call_fails_def second_response_without_text_def
  always_answers_def
  summarize_uploaded_pdf_def file_hash_bytes_def extract_text_from_pdf_def
  summarize_chunk_def aggregate_summaries_def strip_or_raise_def

lemma raised_failure_scenario_E:
  "summarize_uploaded_pdf (example_app [py ''aaaaaaaaaa''] second_call_fails 2) fresh_world
       [37, 80, 68, 70] =
     Some (Inl (RuntimeError
             (py ''Error while summarizing chunk 2: Gemini summarize_chunk error: quota'')),
           fresh_world\<lparr>extract_log := [[37, 80, 68, 70]],
             service_log := [chunk_prompt 150 (py ''aa''), chunk_prompt 150 (py ''aa'')]\<rparr>)"
proof -
  let ?a = "example_app [py ''aaaaaaaaaa''] second_call_fails 2"
  let ?w = "fresh_world"
  let ?b = "[37, 80, 68, 70] :: bytes"
  let ?chunks = "[py ''aa'', py ''aa'', py ''aa'', py ''aa'', py ''aa'']"
  have miss: "summary_cache ?w (file_hash_bytes ?a ?b) = None"
    by (simp add: app_eval)
  have ext: "extract_text_from_pdf (fitz_pages ?a) ?w ?b
      = (Inr (py ''aaaaaaaaaa''), ?w\<lparr>extract_log := [?b]\<rparr>)"
    by (simp add: app_eval strip_def isspace_def py_def)
  have usable: "strip (py ''aaaaaaaaaa'') \<noteq> []"
    by (simp add: strip_def isspace_def py_def)
  have chunks: "chunk_text (py ''aaaaaaaaaa'') (cfg_max_chars ?a) = Some ?chunks"
    by (simp add: example_app_def chunk_eval)
  have k: "(1::nat) < length ?chunks" by simp
  have before: "\<forall>j<(1::nat). \<exists>r. generate_content ?a
            (service_log ?w @ map (chunk_prompt (cfg_per_chunk_words ?a)) (take j ?chunks))
            (chunk_prompt (cfg_per_chunk_words ?a) (?chunks ! j)) = Inr (Some r)"
    by (simp add: app_eval)
  have fails: "generate_content ?a
            (service_log ?w @ map (chunk_prompt (cfg_per_chunk_words ?a)) (take 1 ?chunks))
            (chunk_prompt (cfg_per_chunk_words ?a) (?chunks ! 1)) = Inl (py ''quota'')"
    by (simp add: app_eval)
  have msg: "py ''Error while summarizing chunk '' @ str_int (int 1 + 1) @
        py '': Gemini summarize_chunk error: '' @ py ''quota''
      = py ''Error while summarizing chunk 2: Gemini summarize_chunk error: quota''"
    by (simp add: py_def str_int_def digits.simps)
  have log: "service_log ?w @ map (chunk_prompt (cfg_per_chunk_words ?a)) (take (Suc 1) ?chunks)
      = [chunk_prompt 150 (py ''aa''), chunk_prompt 150 (py ''aa'')]"
    by (simp add: example_app_def fresh_world_def)
  from raised_failure_names_chunk [OF miss ext usable chunks k before fails]
  have "summarize_uploaded_pdf ?a ?w ?b =
       Some (Inl (RuntimeError (py ''Error while summarizing chunk '' @ str_int (int 1 + 1) @
                 py '': Gemini summarize_chunk error: '' @ py ''quota'')),
             ?w\<lparr>extract_log := [?b], service_log := service_log ?w @
                   map (chunk_prompt (cfg_per_chunk_words ?a)) (take (Suc 1) ?chunks)\<rparr>)"
    by blast
  then show ?thesis by (simp only: msg log)
qed

text \<open>
  C6. The claim asks of every failure of a chunk's call, a response without text among
  them, that the run end with an error that names the chunk and carries the cause. The
  run does so when the call raises (above). When the response holds no text it does
  not: with five chunks and no text in the second response, the run ends with
  \<^verbatim>\<open>AttributeError: 'NoneType' object has no attribute 'strip'\<close>, which names no chunk
  and no cause. The service has received the two chunk prompts and nothing else.
\<close>

theorem response_without_text_names_no_chunk:
  "chunk_text (py ''aaaaaaaaaa'') 2 = Some [py ''aa'', py ''aa'', py ''aa'', py ''aa'', py ''aa''] \<and>
   summarize_uploaded_pdf (example_app [py ''aaaaaaaaaa''] second_response_without_text 2)
       fresh_world [37, 80, 68, 70] =
     Some (Inl (AttributeError none_has_no_strip),
           fresh_world\<lparr>extract_log := [[37, 80, 68, 70]],
             service_log := [chunk_prompt 150 (py ''aa''), chunk_prompt 150 (py ''aa'')]\<rparr>)"
proof -
  have c: "chunk_text (py ''aaaaaaaaaa'') 2
      = Some [py ''aa'', py ''aa'', py ''aa'', py ''aa'', py ''aa'']"
    by (simp add: chunk_eval)
  have s: "strip (py ''aaaaaaaaaa'') = py ''aaaaaaaaaa''" "strip (py '' ok '') = py ''ok''"
    by (simp_all add: strip_def isspace_def py_def)
  have ne: "py ''aaaaaaaaaa'' \<noteq> []" by (simp add: py_def)
  have "summarize_uploaded_pdf (example_app [py ''aaaaaaaaaa''] second_response_without_text 2)
       fresh_world [37, 80, 68, 70] =
     Some (Inl (AttributeError none_has_no_strip),
           fresh_world\<lparr>extract_log := [[37, 80, 68, 70]],
             service_log := [chunk_prompt 150 (py ''aa''), chunk_prompt 150 (py ''aa'')]\<rparr>)"
    by (simp add: app_eval c s ne)
  with c show ?thesis by simp
qed

text \<open>
  C7. A run that misses the cache and whose extraction yields the empty string, or
  whitespace only, ends with the \<^verbatim>\<open>RuntimeError\<close> "No extractable text found", in the
  state extraction left: the service has received nothing, and the cache is as it was.
\<close>

theorem extraction_empty_aborts:
  assumes miss: "summary_cache w (file_hash_bytes a file_bytes) = None"
    and ext: "extract_text_from_pdf (fitz_pages a) w file_bytes = (Inr text, w1)"
    and empty: "text = [] \<or> strip text = []"
  shows "summarize_uploaded_pdf a w file_bytes =
       Some (Inl (RuntimeError
               (py ''No extractable text found in PDF (probably scanned image).'')), w1) \<and>
     service_log w1 = service_log w \<and> summary_cache w1 = summary_cache w"
proof -
  from miss ext empty have "summarize_uploaded_pdf a w file_bytes =
       Some (Inl (RuntimeError
               (py ''No extractable text found in PDF (probably scanned image).'')), w1)"
    by (simp add: summarize_uploaded_pdf_def Let_def)
  with ext show ?thesis
    using extract_keeps [of "fitz_pages a" w file_bytes "Inr text" w1] by simp
qed

theorem extraction_empty_aborts_witness:
  "summarize_uploaded_pdf (example_app [[], py ''  ''] always_answers 3000) fresh_world [37, 80, 68, 70] =
     Some (Inl (RuntimeError (py ''No extractable text found in PDF (probably scanned image).'')),
           fresh_world\<lparr>extract_log := [[37, 80, 68, 70]]\<rparr>) \<and>
   service_log (fresh_world\<lparr>extract_log := [[37, 80, 68, 70]]\<rparr>) = []"
proof -
  let ?a = "example_app [[], py ''  ''] always_answers 3000"
  let ?b = "[37, 80, 68, 70] :: bytes"
  have miss: "summary_cache fresh_world (file_hash_bytes ?a ?b) = None"
    by (simp add: app_eval)
  have ext: "extract_text_from_pdf (fitz_pages ?a) fresh_world ?b
      = (Inr [], fresh_world\<lparr>extract_log := [?b]\<rparr>)"
    by (simp add: app_eval strip_def isspace_def py_def)
  have empty: "([]::pystr) = [] \<or> strip [] = []" by simp
  from extraction_empty_aborts [OF miss ext empty] show ?thesis
    by (simp add: fresh_world_def)
qed

text \<open>
  C8. The fingerprint is the hash of the uploaded bytes. After a run that returned a
  final summary, the cache holds that summary under the fingerprint, and a second run
  on the same bytes returns it and leaves the state as it is: nothing is extracted and
  nothing is sent to the service. The same holds in every later state that still holds
  the entry, whatever the PDF library, the service and the settings then are.
\<close>

theorem identical_upload_uses_cache:
  assumes first: "summarize_uploaded_pdf a w file_bytes = Some (Inr final, w1)"
  shows "file_hash_bytes a file_bytes = sha256_hexdigest a file_bytes \<and>
     summary_cache w1 (sha256_hexdigest a file_bytes) = Some final \<and>
     summarize_uploaded_pdf a w1 file_bytes = Some (Inr final, w1) \<and>
     (\<forall>a' w2. sha256_hexdigest a' = sha256_hexdigest a \<and>
        summary_cache w2 (sha256_hexdigest a file_bytes) = Some final \<longrightarrow>
        summarize_uploaded_pdf a' w2 file_bytes = Some (Inr final, w2))"
proof -
  from first have c: "summary_cache w1 (sha256_hexdigest a file_bytes) = Some final"
    by (rule success_is_cached)
  then have "summarize_uploaded_pdf a w1 file_bytes = Some (Inr final, w1)"
    by (rule cache_hit)
  moreover have "\<forall>a' w2. sha256_hexdigest a' = sha256_hexdigest a \<and>
        summary_cache w2 (sha256_hexdigest a file_bytes) = Some final \<longrightarrow>
        summarize_uploaded_pdf a' w2 file_bytes = Some (Inr final, w2)"
    using cache_hit by metis
  ultimately show ?thesis using c by (simp add: file_hash_bytes_def)
qed

theorem identical_upload_uses_cache_witness:
  "\<exists>w1. summarize_uploaded_pdf (example_app [py ''Hello. World''] always_answers 3000) fresh_world
           [37, 80, 68, 70] = Some (Inr (Some (py '' ok '')), w1) \<and>
     service_log w1 = [chunk_prompt 150 (py ''Hello. World''), aggregate_prompt 300 [py ''ok'']] \<and>
     extract_log w1 = [[37, 80, 68, 70]] \<and>
     summarize_uploaded_pdf (example_app [py ''Hello. World''] always_answers 3000) w1
           [37, 80, 68, 70] = Some (Inr (Some (py '' ok '')), w1) \<and>
     summarize_uploaded_pdf (example_app [] second_call_fails 0) w1
           [37, 80, 68, 70] = Some (Inr (Some (py '' ok '')), w1)"
proof -
  let ?a = "example_app [py ''Hello. World''] always_answers 3000"
  let ?b = "[37, 80, 68, 70] :: bytes"
  let ?w1 = "\<lparr>summary_cache = [map unat ?b \<mapsto> Some (py '' ok '')],
      service_log = [chunk_prompt 150 (py ''Hello. World''), aggregate_prompt 300 [py ''ok'']],
      extract_log = [?b]\<rparr>"
  have c: "chunk_text (py ''Hello. World'') 3000 = Some [py ''Hello. World'']"
    by (simp add: chunk_eval)
  have s: "strip (py ''Hello. World'') = py ''Hello. World''" "strip (py '' ok '') = py ''ok''"
    by (simp_all add: strip_def isspace_def py_def)
  have ne: "py ''Hello. World'' \<noteq> []" by (simp add: py_def)
  have first: "summarize_uploaded_pdf ?a fresh_world ?b = Some (Inr (Some (py '' ok '')), ?w1)"
    by (simp add: app_eval c s ne)
  have same: "sha256_hexdigest (example_app [] second_call_fails 0) = sha256_hexdigest ?a"
    by (simp add: example_app_def)
  from identical_upload_uses_cache [OF first] same first show ?thesis by auto
qed

end
